theory Spec2Isabelle
  imports Main "HOL-Library.Word"
begin

unbundle bit_operations_syntax

section \<open>Matrix keypad driver: scan, debounce, dispatch\<close>

text \<open>
  A shallow embedding of \<^verbatim>\<open>keypad.c\<close>, \<^verbatim>\<open>keypad.h\<close> and \<^verbatim>\<open>keypad_config.h\<close>.
  The driver's own code (\<^verbatim>\<open>keypad_gpio_init\<close>, \<^verbatim>\<open>keypad_scan\<close>, \<^verbatim>\<open>keypad_read\<close>,
  \<^verbatim>\<open>keypad_init\<close>) is translated statement by statement. The FreeRTOS kernel and the
  GPIO peripheral are not part of the repository; the few primitives the driver calls are
  modelled in the subsection on the environment, each with the idealisation it makes.
\<close>

type_synonym u8 = "8 word"
type_synonym u32 = "32 word"

subsection \<open>Configuration\<close>

text \<open>
  The board description: the lengths of the tables \<^verbatim>\<open>KEYPAD_ROW_GPIO\<close> and
  \<^verbatim>\<open>KEYPAD_COL_GPIO\<close>, and \<^verbatim>\<open>portTICK_PERIOD_MS\<close>, which comes from the FreeRTOS
  configuration of the target and is therefore a parameter.
\<close>

record board =
  n_rows :: nat
  n_cols :: nat
  tick_period_ms :: nat

text \<open>
  The three delays of \<^verbatim>\<open>keypad_config.h\<close>, in ticks. They are unsigned divisions by
  \<^verbatim>\<open>portTICK_PERIOD_MS\<close>; a tick period of 0 does not compile in C, here it gives 0.
\<close>

definition KEYPAD_GPIO_STABILIZATION_TIME :: "board \<Rightarrow> nat" where
  "KEYPAD_GPIO_STABILIZATION_TIME b = 1 div tick_period_ms b"

definition KEYPAD_TASK_DELAY_TIME :: "board \<Rightarrow> nat" where
  "KEYPAD_TASK_DELAY_TIME b = 5 div tick_period_ms b"

definition KEYPAD_DEBOUNCE_TIME :: "board \<Rightarrow> nat" where
  "KEYPAD_DEBOUNCE_TIME b = 50 div tick_period_ms b"

definition KEYPAD_QUEUE_SIZE :: nat where
  "KEYPAD_QUEUE_SIZE = 10"

definition KEY_NONE :: u32 where
  "KEY_NONE = 0"

definition KEY_EVENT_BITMASK :: u32 where
  "KEY_EVENT_BITMASK = 0x00FFFFFF"

text \<open>
  The board of \<^verbatim>\<open>keypad_config.h\<close>: four row lines and four column lines, here with a
  tick of one millisecond.
\<close>

definition gd32_board :: board where
  "gd32_board = \<lparr>n_rows = 4, n_cols = 4, tick_period_ms = 1\<rparr>"

subsection \<open>State\<close>

text \<open>
  \<^verbatim>\<open>keypad_t\<close> of \<^verbatim>\<open>keypad.h\<close>. The timer handle is modelled by the state of the timer
  it refers to: \<open>None\<close> while the one-shot timer is dormant, \<open>Some e\<close> when it was
  started and expires at tick \<open>e\<close>.
\<close>

record keypad_t =
  col_count :: u8
  row_count :: u8
  keys_pressed :: u32
  keys_down :: u32
  timer_debounce :: "nat option"

text \<open>A call of the task into one of the two dispatch channels.\<close>

datatype call = SetBits u32 | QueueSend u32

text \<open>
  The three globals of \<^verbatim>\<open>keypad.c\<close> together with the part of the environment the driver
  acts on: the output level of every row line (\<open>True\<close> is released, that is floating
  high; \<open>False\<close> is driven low), the kernel's tick count, whether the poll task was
  created, and the calls made so far into the dispatch channels, oldest first.
\<close>

record sys =
  keypad :: keypad_t
  keypad_event_group :: u32
  keypad_queue :: "u32 list"
  row_lines :: "bool list"
  tick_count :: nat
  task_created :: bool
  calls :: "call list"

text \<open>
  The state of the contacts: \<open>closed row col\<close> holds when the key at that intersection is
  pressed. It is an input of every scan, taken as constant for the duration of one scan.
\<close>

type_synonym contacts = "nat \<Rightarrow> nat \<Rightarrow> bool"

datatype error = Undefined_shift

subsection \<open>Environment: GPIO lines and FreeRTOS primitives\<close>

text \<open>
  Modelled from the spec: the GPIO capability (drive a row low, float a row high, read a
  column level). The macros of \<^verbatim>\<open>keypad_config.h\<close> expand to calls of the vendor's
  peripheral library, which is not in the repository.
  A column is pulled up and reads 0 exactly when a closed contact connects it to a row
  line that is driven low. Current paths through several closed contacts (ghosting) are
  not modelled. A line index outside the table cannot occur in the driver, whose counts
  are the table lengths; the list update then leaves the lines as they are.
\<close>

definition KEYPAD_GPIO_SET :: "nat \<Rightarrow> sys \<Rightarrow> sys" where
  "KEYPAD_GPIO_SET row s = s\<lparr>row_lines := (row_lines s)[row := True]\<rparr>"

definition KEYPAD_GPIO_RESET :: "nat \<Rightarrow> sys \<Rightarrow> sys" where
  "KEYPAD_GPIO_RESET row s = s\<lparr>row_lines := (row_lines s)[row := False]\<rparr>"

definition KEYPAD_GPIO_GET :: "contacts \<Rightarrow> sys \<Rightarrow> nat \<Rightarrow> nat" where
  "KEYPAD_GPIO_GET closed s col =
     (if list_ex (\<lambda>row. \<not> row_lines s ! row \<and> closed row col) [0..<length (row_lines s)]
      then 0 else 1)"

text \<open>
  Modelled from the spec: the timer capability (create a one-shot timer, restart it,
  query whether it is active) and the passing of time. Time is counted in ticks and
  advances only while the task sleeps in \<^verbatim>\<open>vTaskDelay\<close>, by exactly the number of ticks
  asked for; a timer command takes effect at once. A timer restarted at tick \<open>t\<close> with
  period \<open>d\<close> is active at the ticks before \<open>t + d\<close> and inactive from then on.
\<close>

definition vTaskDelay :: "nat \<Rightarrow> sys \<Rightarrow> sys" where
  "vTaskDelay n s = s\<lparr>tick_count := tick_count s + n\<rparr>"

definition xTimerCreate :: "sys \<Rightarrow> sys" where
  "xTimerCreate s = s\<lparr>keypad := (keypad s)\<lparr>timer_debounce := None\<rparr>\<rparr>"

definition xTimerReset :: "nat \<Rightarrow> sys \<Rightarrow> sys" where
  "xTimerReset period s =
     s\<lparr>keypad := (keypad s)\<lparr>timer_debounce := Some (tick_count s + period)\<rparr>\<rparr>"

definition xTimerIsTimerActive :: "sys \<Rightarrow> bool" where
  "xTimerIsTimerActive s =
     (case timer_debounce (keypad s) of None \<Rightarrow> False | Some e \<Rightarrow> tick_count s < e)"

text \<open>
  Modelled from the spec: the dispatch capability. The event group is a persistent bit
  mask into which bits are OR-ed. The queue is a bounded FIFO of 32-bit values: a send
  appends when there is room; on a full queue it waits for at most the given number of
  ticks and then gives the message up (no consumer runs inside this model, so the wait
  is the whole timeout, and a timeout of 0 returns at once).
\<close>

definition xEventGroupCreate :: "sys \<Rightarrow> sys" where
  "xEventGroupCreate s = s\<lparr>keypad_event_group := 0\<rparr>"

definition xEventGroupClearBits :: "u32 \<Rightarrow> sys \<Rightarrow> sys" where
  "xEventGroupClearBits bits s = s\<lparr>keypad_event_group := keypad_event_group s AND NOT bits\<rparr>"

definition xEventGroupSetBits :: "u32 \<Rightarrow> sys \<Rightarrow> sys" where
  "xEventGroupSetBits bits s =
     s\<lparr>keypad_event_group := keypad_event_group s OR bits, calls := calls s @ [SetBits bits]\<rparr>"

definition xQueueCreate :: "sys \<Rightarrow> sys" where
  "xQueueCreate s = s\<lparr>keypad_queue := []\<rparr>"

definition xQueueSend :: "u32 \<Rightarrow> nat \<Rightarrow> sys \<Rightarrow> sys" where
  "xQueueSend item ticks_to_wait s =
     (if length (keypad_queue s) < KEYPAD_QUEUE_SIZE
      then s\<lparr>keypad_queue := keypad_queue s @ [item], calls := calls s @ [QueueSend item]\<rparr>
      else (vTaskDelay ticks_to_wait s)\<lparr>calls := calls s @ [QueueSend item]\<rparr>)"

definition xTaskCreate :: "sys \<Rightarrow> sys" where
  "xTaskCreate s = s\<lparr>task_created := True\<rparr>"

subsection \<open>Scanner\<close>

text \<open>
  The C expression \<^verbatim>\<open>1 << n\<close> on the 32-bit \<^verbatim>\<open>int\<close> of the target: defined for
  \<open>n < 31\<close>, undefined behaviour from 31 on (the result is not representable in
  \<^verbatim>\<open>int\<close>, or the count reaches the width). The defined result is then converted to
  \<^verbatim>\<open>uint32_t\<close>.
\<close>

definition shl1 :: "nat \<Rightarrow> error + u32" where
  "shl1 n = (if n < 31 then Inr (push_bit n 1) else Inl Undefined_shift)"

text \<open>
  The inner loop of \<^verbatim>\<open>keypad_scan\<close> over the columns of the row that is driven low. The
  counters \<^verbatim>\<open>row\<close> and \<^verbatim>\<open>col\<close> are \<^verbatim>\<open>uint8_t\<close> and stay below the \<^verbatim>\<open>uint8_t\<close> counts,
  so they never wrap and are natural numbers here; the bit index is computed in
  \<^verbatim>\<open>int\<close>, where it cannot overflow.
\<close>

function scan_cols :: "contacts \<Rightarrow> sys \<Rightarrow> nat \<Rightarrow> nat \<Rightarrow> u32 \<Rightarrow> error + u32" where
  "scan_cols closed s row col key =
     (if col < unat (col_count (keypad s)) then
        (if KEYPAD_GPIO_GET closed s col = 0 then
           (case shl1 (row * unat (col_count (keypad s)) + col) of
              Inl e \<Rightarrow> Inl e
            | Inr b \<Rightarrow> scan_cols closed s row (Suc col) (key OR b))
         else scan_cols closed s row (Suc col) key)
      else Inr key)"
  by pat_completeness auto
termination
  by (relation "measure (\<lambda>(closed, s, row, col, key). unat (col_count (keypad s)) - col)") auto

declare scan_cols.simps [simp del]

text \<open>The outer loop of \<^verbatim>\<open>keypad_scan\<close> over the rows.\<close>

function scan_rows :: "board \<Rightarrow> contacts \<Rightarrow> nat \<Rightarrow> u32 \<Rightarrow> sys \<Rightarrow> error + (u32 \<times> sys)" where
  "scan_rows b closed row key s =
     (if row < unat (row_count (keypad s)) then
        (let s1 = KEYPAD_GPIO_RESET row s;
             s2 = vTaskDelay (KEYPAD_GPIO_STABILIZATION_TIME b) s1
         in case scan_cols closed s2 row 0 key of
              Inl e \<Rightarrow> Inl e
            | Inr key' \<Rightarrow> scan_rows b closed (Suc row) key' (KEYPAD_GPIO_SET row s2))
      else Inr (key, s))"
  by pat_completeness auto
termination
  by (relation "measure (\<lambda>(b, closed, row, key, s). unat (row_count (keypad s)) - row)")
     (auto simp: KEYPAD_GPIO_SET_def KEYPAD_GPIO_RESET_def vTaskDelay_def)

declare scan_rows.simps [simp del]

definition keypad_scan :: "board \<Rightarrow> contacts \<Rightarrow> sys \<Rightarrow> error + (u32 \<times> sys)" where
  "keypad_scan b closed s = scan_rows b closed 0 0 s"

subsection \<open>Poll task\<close>

text \<open>The statements of \<^verbatim>\<open>keypad_read\<close> before its loop.\<close>

definition keypad_read_setup :: "sys \<Rightarrow> sys" where
  "keypad_read_setup s =
     xQueueCreate (xEventGroupClearBits KEY_EVENT_BITMASK (xEventGroupCreate (xTimerCreate s)))"

text \<open>
  The body of the loop of \<^verbatim>\<open>keypad_read\<close> from the assignment of the scan's result to
  \<^verbatim>\<open>keys_pressed\<close> up to and including the final \<^verbatim>\<open>vTaskDelay\<close>.
\<close>

definition keypad_read_update :: "board \<Rightarrow> u32 \<Rightarrow> sys \<Rightarrow> sys" where
  "keypad_read_update b key s =
     (let s1 = s\<lparr>keypad := (keypad s)\<lparr>keys_pressed := key\<rparr>\<rparr>;
          s2 =
            (if keys_pressed (keypad s1) \<noteq> 0 then
               (let s' = (if keys_pressed (keypad s1) \<noteq> keys_down (keypad s1)
                          then xTimerReset (KEYPAD_DEBOUNCE_TIME b) s1 else s1)
                in s'\<lparr>keypad := (keypad s')
                      \<lparr>keys_down := keys_down (keypad s') OR keys_pressed (keypad s')\<rparr>\<rparr>)
             else
               (let s' = (if keys_down (keypad s1) \<noteq> KEY_NONE \<and> \<not> xTimerIsTimerActive s1
                          then xQueueSend (keys_down (keypad s1)) 0
                                 (xEventGroupSetBits
                                    (keys_down (keypad s1) AND KEY_EVENT_BITMASK) s1)
                          else s1)
                in s'\<lparr>keypad := (keypad s')\<lparr>keys_down := KEY_NONE\<rparr>\<rparr>))
      in vTaskDelay (KEYPAD_TASK_DELAY_TIME b) s2)"

text \<open>One iteration of the loop: scan, then update.\<close>

definition keypad_read_cycle :: "board \<Rightarrow> contacts \<Rightarrow> sys \<Rightarrow> error + sys" where
  "keypad_read_cycle b closed s =
     (case keypad_scan b closed s of
        Inl e \<Rightarrow> Inl e
      | Inr (key, s') \<Rightarrow> Inr (keypad_read_update b key s'))"

text \<open>
  The loop never ends; it is run here for as many iterations as there are contact states
  in the input, one per scan.
\<close>

fun keypad_read_loop :: "board \<Rightarrow> contacts list \<Rightarrow> sys \<Rightarrow> error + sys" where
  "keypad_read_loop b [] s = Inr s"
| "keypad_read_loop b (closed # rest) s =
     (case keypad_read_cycle b closed s of
        Inl e \<Rightarrow> Inl e
      | Inr s' \<Rightarrow> keypad_read_loop b rest s')"

definition keypad_read :: "board \<Rightarrow> contacts list \<Rightarrow> sys \<Rightarrow> error + sys" where
  "keypad_read b inputs s = keypad_read_loop b inputs (keypad_read_setup s)"

text \<open>
  The same iteration seen from the debounce state machine, which only consumes the
  bitmask of the scan: the time the scan sleeps (one stabilisation delay for each row),
  then the update with the bitmask the scan returned. Lemma \<open>keypad_read_cycle_poll\<close>
  below shows that an iteration of the loop is a \<open>poll_cycle\<close> on the bitmask of its scan.
\<close>

definition scan_ticks :: "board \<Rightarrow> sys \<Rightarrow> nat" where
  "scan_ticks b s = unat (row_count (keypad s)) * KEYPAD_GPIO_STABILIZATION_TIME b"

definition scan_wait :: "board \<Rightarrow> sys \<Rightarrow> sys" where
  "scan_wait b s = vTaskDelay (scan_ticks b s) s"

definition poll_cycle :: "board \<Rightarrow> u32 \<Rightarrow> sys \<Rightarrow> sys" where
  "poll_cycle b key s = keypad_read_update b key (scan_wait b s)"

fun poll :: "board \<Rightarrow> u32 list \<Rightarrow> sys \<Rightarrow> sys" where
  "poll b [] s = s"
| "poll b (key # keys) s = poll b keys (poll_cycle b key s)"

text \<open>The ticks one iteration of the loop takes.\<close>

definition cycle_ticks :: "board \<Rightarrow> sys \<Rightarrow> nat" where
  "cycle_ticks b s = scan_ticks b s + KEYPAD_TASK_DELAY_TIME b"

subsection \<open>Initialisation\<close>

text \<open>
  The state at reset: the globals are zero, no row line is driven, no task exists.
\<close>

definition boot :: "board \<Rightarrow> sys" where
  "boot b =
     \<lparr>keypad = \<lparr>col_count = 0, row_count = 0, keys_pressed = 0, keys_down = 0,
                timer_debounce = None\<rparr>,
      keypad_event_group = 0, keypad_queue = [],
      row_lines = replicate (n_rows b) True,
      tick_count = 0, task_created = False, calls = []\<rparr>"

text \<open>
  The first loop of \<^verbatim>\<open>keypad_gpio_init\<close>: every row line is released. Clock enabling
  and pin modes have no counterpart in the state, so the second loop, over the columns,
  changes nothing here.
\<close>

function gpio_init_rows :: "nat \<Rightarrow> sys \<Rightarrow> sys" where
  "gpio_init_rows i s =
     (if i < unat (row_count (keypad s)) then gpio_init_rows (Suc i) (KEYPAD_GPIO_SET i s)
      else s)"
  by pat_completeness auto
termination
  by (relation "measure (\<lambda>(i, s). unat (row_count (keypad s)) - i)")
     (auto simp: KEYPAD_GPIO_SET_def)

declare gpio_init_rows.simps [simp del]

definition keypad_gpio_init :: "sys \<Rightarrow> sys" where
  "keypad_gpio_init s = gpio_init_rows 0 s"

text \<open>
  \<^verbatim>\<open>keypad_init\<close>. The counts are table lengths of type \<^verbatim>\<open>size_t\<close> stored into
  \<^verbatim>\<open>uint8_t\<close> fields, hence truncated to 8 bits.
\<close>

definition keypad_init :: "board \<Rightarrow> sys \<Rightarrow> sys" where
  "keypad_init b s =
     (let s1 = s\<lparr>keypad := (keypad s)\<lparr>row_count := of_nat (n_rows b)\<rparr>\<rparr>;
          s2 = s1\<lparr>keypad := (keypad s1)\<lparr>col_count := of_nat (n_cols b)\<rparr>\<rparr>;
          s3 = s2\<lparr>keypad := (keypad s2)\<lparr>keys_pressed := 0\<rparr>\<rparr>;
          s4 = s3\<lparr>keypad := (keypad s3)\<lparr>keys_down := 0\<rparr>\<rparr>;
          s5 = keypad_gpio_init s4
      in xTaskCreate s5)"

subsection \<open>Reference states and invariants\<close>

text \<open>
  The state in which the poll task enters its loop: \<^verbatim>\<open>keypad_init\<close> at reset, then
  the statements of \<^verbatim>\<open>keypad_read\<close> before the loop.
\<close>

definition power_on :: "board \<Rightarrow> sys" where
  "power_on b = keypad_read_setup (keypad_init b (boot b))"

text \<open>
  The state of the lines between two scans: every row the driver scans has a line, and
  no row line is driven low.
\<close>

definition rows_released :: "sys \<Rightarrow> bool" where
  "rows_released s \<longleftrightarrow>
     unat (row_count (keypad s)) \<le> length (row_lines s) \<and>
     list_all (\<lambda>line. line) (row_lines s)"

text \<open>
  A state the loop reaches with a full queue: ten presses, each held for six cycles and
  released, and an eleventh key held for six cycles.
\<close>

definition queue_full_state :: sys where
  "queue_full_state =
     poll gd32_board (concat (replicate 10 (replicate 6 1 @ [0])) @ replicate 6 2)
       (power_on gd32_board)"

text \<open>
  A key that flickers for less than one debounce period: whenever the accumulator is
  not empty, the timer was restarted during the flicker and outlasts it.
\<close>

definition settling :: "board \<Rightarrow> u32 \<Rightarrow> nat \<Rightarrow> sys \<Rightarrow> bool" where
  "settling b k rest s \<longleftrightarrow>
     keys_down (keypad s) = 0 \<or>
     keys_down (keypad s) = k \<and>
       (\<exists>e. timer_debounce (keypad s) = Some e
          \<and> tick_count s + rest * cycle_ticks b s + scan_ticks b s < e
          \<and> e \<le> tick_count s + scan_ticks b s + KEYPAD_DEBOUNCE_TIME b)"

text \<open>
  The mask a call carries; that the calls come in pairs, a \<^verbatim>\<open>xEventGroupSetBits\<close> followed
  by a \<^verbatim>\<open>xQueueSend\<close> of the same value; and that a value has no bit outside
  \<^verbatim>\<open>KEY_EVENT_BITMASK\<close>.
\<close>

fun call_mask :: "call \<Rightarrow> u32" where
  "call_mask (SetBits m) = m"
| "call_mask (QueueSend v) = v"

fun paired :: "call list \<Rightarrow> bool" where
  "paired [] \<longleftrightarrow> True"
| "paired (SetBits m # QueueSend v # cs) \<longleftrightarrow> m = v \<and> paired cs"
| "paired cs \<longleftrightarrow> False"

definition within_mask :: "u32 \<Rightarrow> bool" where
  "within_mask v \<longleftrightarrow> v AND KEY_EVENT_BITMASK = v"

text \<open>Nothing the task holds or has dispatched has a bit outside the event mask.\<close>

definition dispatch_width_ok :: "sys \<Rightarrow> bool" where
  "dispatch_width_ok s \<longleftrightarrow>
     within_mask (keys_down (keypad s)) \<and> within_mask (keypad_event_group s) \<and>
     list_all within_mask (keypad_queue s) \<and>
     list_all (\<lambda>c. within_mask (call_mask c)) (calls s) \<and> paired (calls s)"

section \<open>One iteration of the loop, field by field\<close>

lemmas env_defs = vTaskDelay_def xTimerReset_def xTimerIsTimerActive_def xEventGroupSetBits_def
  xQueueSend_def scan_wait_def scan_ticks_def cycle_ticks_def KEY_NONE_def

lemma active_at_decision:
  "xTimerIsTimerActive (scan_wait b s) \<longleftrightarrow>
     (\<exists>e. timer_debounce (keypad s) = Some e \<and> tick_count s + scan_ticks b s < e)"
  by (auto simp: xTimerIsTimerActive_def scan_wait_def vTaskDelay_def split: option.splits)

lemma poll_cycle_tick_count:
  "tick_count (poll_cycle b key s) = tick_count s + cycle_ticks b s"
  by (auto simp: poll_cycle_def keypad_read_update_def Let_def env_defs split: option.splits)

lemma poll_cycle_counts:
  "row_count (keypad (poll_cycle b key s)) = row_count (keypad s)"
  "col_count (keypad (poll_cycle b key s)) = col_count (keypad s)"
  by (auto simp: poll_cycle_def keypad_read_update_def Let_def env_defs split: option.splits)

lemma poll_cycle_ticks:
  "scan_ticks b (poll_cycle b key s) = scan_ticks b s"
  "cycle_ticks b (poll_cycle b key s) = cycle_ticks b s"
  by (simp_all add: cycle_ticks_def scan_ticks_def poll_cycle_counts)

lemma poll_cycle_lines:
  "row_lines (poll_cycle b key s) = row_lines s"
  "task_created (poll_cycle b key s) = task_created s"
  by (auto simp: poll_cycle_def keypad_read_update_def Let_def env_defs split: option.splits)

lemma poll_cycle_keys_down:
  "keys_down (keypad (poll_cycle b key s)) =
     (if key = 0 then 0 else keys_down (keypad s) OR key)"
  by (auto simp: poll_cycle_def keypad_read_update_def Let_def env_defs split: option.splits)

lemma poll_cycle_keys_pressed:
  "keys_pressed (keypad (poll_cycle b key s)) = key"
  by (auto simp: poll_cycle_def keypad_read_update_def Let_def env_defs split: option.splits)

lemma poll_cycle_timer:
  "timer_debounce (keypad (poll_cycle b key s)) =
     (if key \<noteq> 0 \<and> key \<noteq> keys_down (keypad s)
      then Some (tick_count s + scan_ticks b s + KEYPAD_DEBOUNCE_TIME b)
      else timer_debounce (keypad s))"
  by (auto simp: poll_cycle_def keypad_read_update_def Let_def env_defs split: option.splits)

lemma poll_cycle_calls:
  "calls (poll_cycle b key s) =
     (if key = 0 \<and> keys_down (keypad s) \<noteq> 0 \<and> \<not> xTimerIsTimerActive (scan_wait b s)
      then calls s @ [SetBits (keys_down (keypad s) AND KEY_EVENT_BITMASK),
                      QueueSend (keys_down (keypad s))]
      else calls s)"
  by (auto simp: poll_cycle_def keypad_read_update_def Let_def env_defs split: option.splits)

lemma poll_cycle_event_group:
  "keypad_event_group (poll_cycle b key s) =
     (if key = 0 \<and> keys_down (keypad s) \<noteq> 0 \<and> \<not> xTimerIsTimerActive (scan_wait b s)
      then keypad_event_group s OR (keys_down (keypad s) AND KEY_EVENT_BITMASK)
      else keypad_event_group s)"
  by (auto simp: poll_cycle_def keypad_read_update_def Let_def env_defs split: option.splits)

lemma poll_cycle_queue:
  "keypad_queue (poll_cycle b key s) =
     (if key = 0 \<and> keys_down (keypad s) \<noteq> 0 \<and> \<not> xTimerIsTimerActive (scan_wait b s)
           \<and> length (keypad_queue s) < KEYPAD_QUEUE_SIZE
      then keypad_queue s @ [keys_down (keypad s)]
      else keypad_queue s)"
  by (auto simp: poll_cycle_def keypad_read_update_def Let_def env_defs split: option.splits)

lemma poll_append: "poll b (xs @ ys) s = poll b ys (poll b xs s)"
  by (induction xs arbitrary: s) simp_all

lemma poll_ticks:
  "scan_ticks b (poll b keys s) = scan_ticks b s"
  "cycle_ticks b (poll b keys s) = cycle_ticks b s"
  by (induction keys arbitrary: s) (simp_all add: poll_cycle_ticks)

lemma poll_tick_count:
  "tick_count (poll b keys s) = tick_count s + length keys * cycle_ticks b s"
  by (induction keys arbitrary: s) (simp_all add: poll_cycle_tick_count poll_cycle_ticks)

text \<open>While the scan keeps returning the accumulated mask, only time passes.\<close>

lemma poll_hold:
  assumes "keys_down (keypad s) = k" "k \<noteq> 0"
  shows "keys_down (keypad (poll b (replicate n k) s)) = k
       \<and> timer_debounce (keypad (poll b (replicate n k) s)) = timer_debounce (keypad s)
       \<and> calls (poll b (replicate n k) s) = calls s
       \<and> keypad_event_group (poll b (replicate n k) s) = keypad_event_group s
       \<and> keypad_queue (poll b (replicate n k) s) = keypad_queue s"
  using assms
proof (induction n arbitrary: s)
  case 0
  then show ?case by simp
next
  case (Suc n)
  have "keys_down (keypad (poll_cycle b k s)) = k"
    using Suc.prems by (simp add: poll_cycle_keys_down)
  from Suc.IH [OF this Suc.prems(2)] show ?case
    using Suc.prems
    by (simp add: poll_cycle_timer poll_cycle_calls poll_cycle_event_group poll_cycle_queue)
qed

text \<open>Release after the accumulated mask was held for n cycles.\<close>

lemma poll_hold_release:
  assumes "keys_down (keypad s) = k" "k \<noteq> 0"
  shows "calls (poll b (replicate n k @ [0]) s) =
     (if (\<exists>e. timer_debounce (keypad s) = Some e
              \<and> tick_count s + n * cycle_ticks b s + scan_ticks b s < e)
      then calls s
      else calls s @ [SetBits (k AND KEY_EVENT_BITMASK), QueueSend k])"
proof -
  let ?s = "poll b (replicate n k) s"
  note h = poll_hold [OF assms, of b n]
  have "xTimerIsTimerActive (scan_wait b ?s) \<longleftrightarrow>
     (\<exists>e. timer_debounce (keypad s) = Some e
              \<and> tick_count s + n * cycle_ticks b s + scan_ticks b s < e)"
    by (simp add: active_at_decision h poll_tick_count poll_ticks)
  then show ?thesis
    using h assms by (simp add: poll_append poll_cycle_calls)
qed

text \<open>
  A mask that differs from the accumulator and contains it, scanned for n + 1 cycles and
  then released.
\<close>

lemma poll_press_release:
  assumes "keys_down (keypad s) OR k = k" "keys_down (keypad s) \<noteq> k"
  shows "calls (poll b (replicate (Suc n) k @ [0]) s) =
     (if Suc n * cycle_ticks b s < KEYPAD_DEBOUNCE_TIME b
      then calls s
      else calls s @ [SetBits (k AND KEY_EVENT_BITMASK), QueueSend k])"
proof -
  from assms have k: "k \<noteq> 0" by auto
  let ?s = "poll_cycle b k s"
  have kd: "keys_down (keypad ?s) = k"
    using assms k by (simp add: poll_cycle_keys_down)
  have tm: "timer_debounce (keypad ?s) = Some (tick_count s + scan_ticks b s + KEYPAD_DEBOUNCE_TIME b)"
    using assms k by (auto simp add: poll_cycle_timer)
  have c: "calls ?s = calls s"
    using k by (simp add: poll_cycle_calls)
  have "calls (poll b (replicate n k @ [0]) ?s) =
     (if n * cycle_ticks b s + cycle_ticks b s < KEYPAD_DEBOUNCE_TIME b
      then calls s
      else calls s @ [SetBits (k AND KEY_EVENT_BITMASK), QueueSend k])"
    unfolding poll_hold_release [OF kd k]
    by (simp add: tm c poll_cycle_tick_count poll_cycle_ticks)
  then show ?thesis by (simp add: add.commute)
qed

section \<open>Initialisation leaves the lines released\<close>

lemma rows_released_nth:
  "rows_released s \<Longrightarrow> i < length (row_lines s) \<Longrightarrow> row_lines s ! i"
  by (simp add: rows_released_def list_all_length)

lemma rows_released_set_line:
  assumes "rows_released s"
  shows "KEYPAD_GPIO_SET i s = s"
proof -
  have "(row_lines s)[i := True] = row_lines s"
  proof (cases "i < length (row_lines s)")
    case True
    with assms have "row_lines s ! i = True"
      by (simp add: rows_released_nth)
    then show ?thesis
      by (metis list_update_id)
  next
    case False
    then have "length (row_lines s) \<le> i" by simp
    then show ?thesis by (rule list_update_beyond)
  qed
  then show ?thesis
    by (simp add: KEYPAD_GPIO_SET_def)
qed

lemma gpio_init_rows_released:
  "rows_released s \<Longrightarrow> gpio_init_rows i s = s"
proof (induction i s rule: gpio_init_rows.induct)
  case (1 i s)
  show ?case
  proof (cases "i < unat (row_count (keypad s))")
    case True
    with 1 show ?thesis
      by (subst gpio_init_rows.simps) (simp add: rows_released_set_line)
  next
    case False
    then show ?thesis by (subst gpio_init_rows.simps) simp
  qed
qed

lemma gpio_init_rows_keypad:
  "keypad (gpio_init_rows i s) = keypad s"
proof (induction i s rule: gpio_init_rows.induct)
  case (1 i s)
  then show ?case
    by (subst gpio_init_rows.simps) (simp add: KEYPAD_GPIO_SET_def)
qed

lemma keypad_init_boot:
  "keypad_init b (boot b) =
     \<lparr>keypad = \<lparr>col_count = of_nat (n_cols b), row_count = of_nat (n_rows b),
                keys_pressed = 0, keys_down = 0, timer_debounce = None\<rparr>,
      keypad_event_group = 0, keypad_queue = [],
      row_lines = replicate (n_rows b) True,
      tick_count = 0, task_created = True, calls = []\<rparr>"
proof -
  have "unat (of_nat (n_rows b) :: u8) \<le> n_rows b"
    by (simp add: unat_of_nat)
  then have "keypad_gpio_init s = s"
    if "row_lines s = replicate (n_rows b) True" "row_count (keypad s) = of_nat (n_rows b)" for s
    unfolding keypad_gpio_init_def using that
    by (intro gpio_init_rows_released) (simp add: rows_released_def list_all_length)
  then show ?thesis
    by (simp add: keypad_init_def boot_def Let_def xTaskCreate_def)
qed

lemma power_on_eq:
  "power_on b =
     \<lparr>keypad = \<lparr>col_count = of_nat (n_cols b), row_count = of_nat (n_rows b),
                keys_pressed = 0, keys_down = 0, timer_debounce = None\<rparr>,
      keypad_event_group = 0, keypad_queue = [],
      row_lines = replicate (n_rows b) True,
      tick_count = 0, task_created = True, calls = []\<rparr>"
  by (simp add: power_on_def keypad_init_boot keypad_read_setup_def xQueueCreate_def
      xEventGroupClearBits_def xEventGroupCreate_def xTimerCreate_def)

lemma rows_released_power_on:
  "rows_released (power_on b)"
  by (simp add: power_on_eq rows_released_def list_all_length unat_of_nat)

lemma power_on_gd32 [simp]:
  "keys_down (keypad (power_on gd32_board)) = 0"
  "timer_debounce (keypad (power_on gd32_board)) = None"
  "calls (power_on gd32_board) = []"
  "keypad_queue (power_on gd32_board) = []"
  "keypad_event_group (power_on gd32_board) = 0"
  "tick_count (power_on gd32_board) = 0"
  "cycle_ticks gd32_board (power_on gd32_board) = 9"
  "scan_ticks gd32_board (power_on gd32_board) = 4"
  "KEYPAD_DEBOUNCE_TIME gd32_board = 50"
  by (simp_all add: power_on_eq gd32_board_def cycle_ticks_def scan_ticks_def
      KEYPAD_GPIO_STABILIZATION_TIME_def KEYPAD_TASK_DELAY_TIME_def KEYPAD_DEBOUNCE_TIME_def)

section \<open>Sequences of scans\<close>

lemma poll_idle:
  assumes "keys_down (keypad s) = 0"
  shows "keys_down (keypad (poll b (replicate n 0) s)) = 0
       \<and> calls (poll b (replicate n 0) s) = calls s
       \<and> keypad_event_group (poll b (replicate n 0) s) = keypad_event_group s
       \<and> keypad_queue (poll b (replicate n 0) s) = keypad_queue s"
  using assms
proof (induction n arbitrary: s)
  case 0
  then show ?case by simp
next
  case (Suc n)
  have "keys_down (keypad (poll_cycle b 0 s)) = 0"
    by (simp add: poll_cycle_keys_down)
  from Suc.IH [OF this] show ?case
    using Suc.prems
    by (simp add: poll_cycle_calls poll_cycle_event_group poll_cycle_queue)
qed

text \<open>A mask that contains the accumulator and differs from it, scanned for n + 1 cycles.\<close>

lemma poll_press:
  assumes "keys_down (keypad s) OR k = k" "keys_down (keypad s) \<noteq> k"
  shows "keys_down (keypad (poll b (replicate (Suc n) k) s)) = k
       \<and> timer_debounce (keypad (poll b (replicate (Suc n) k) s)) =
           Some (tick_count s + scan_ticks b s + KEYPAD_DEBOUNCE_TIME b)
       \<and> calls (poll b (replicate (Suc n) k) s) = calls s"
proof -
  from assms have k: "k \<noteq> 0" by auto
  let ?s = "poll_cycle b k s"
  have kd: "keys_down (keypad ?s) = k"
    using assms k by (simp add: poll_cycle_keys_down)
  from poll_hold [OF kd k, of b n] show ?thesis
    using assms k by (auto simp: poll_cycle_timer poll_cycle_calls)
qed

lemma settling_step:
  assumes "settling b k (Suc rest) s" and "k \<noteq> 0" and "key = 0 \<or> key = k"
    and "Suc rest * cycle_ticks b s < KEYPAD_DEBOUNCE_TIME b"
  shows "settling b k rest (poll_cycle b key s) \<and> calls (poll_cycle b key s) = calls s"
proof (cases "key = 0")
  case True
  have "xTimerIsTimerActive (scan_wait b s)" if "keys_down (keypad s) \<noteq> 0"
    using assms(1) that by (auto simp: settling_def active_at_decision)
  then show ?thesis
    using True by (auto simp: settling_def poll_cycle_keys_down poll_cycle_calls)
next
  case False
  with assms(3) have key: "key = k" by simp
  show ?thesis
  proof (cases "keys_down (keypad s) = k")
    case True
    with assms(1,2) obtain e where "timer_debounce (keypad s) = Some e"
      "tick_count s + Suc rest * cycle_ticks b s + scan_ticks b s < e"
      "e \<le> tick_count s + scan_ticks b s + KEYPAD_DEBOUNCE_TIME b"
      by (auto simp: settling_def)
    then show ?thesis
      using True assms(2) key
      by (simp add: settling_def poll_cycle_keys_down poll_cycle_calls poll_cycle_timer
          poll_cycle_tick_count poll_cycle_ticks)
  next
    case False
    with assms(1) have "keys_down (keypad s) = 0"
      by (auto simp: settling_def)
    then show ?thesis
      using False assms(2,4) key
      by (simp add: settling_def poll_cycle_keys_down poll_cycle_calls poll_cycle_timer
          poll_cycle_tick_count poll_cycle_ticks)
  qed
qed

lemma poll_flicker:
  assumes "settling b k (length fs) s" and "k \<noteq> 0" and "set fs \<subseteq> {0, k}"
    and "length fs * cycle_ticks b s < KEYPAD_DEBOUNCE_TIME b"
  shows "settling b k 0 (poll b fs s) \<and> calls (poll b fs s) = calls s"
  using assms
proof (induction fs arbitrary: s)
  case Nil
  then show ?case by simp
next
  case (Cons key fs)
  from Cons.prems(3) have key: "key = 0 \<or> key = k" and fs: "set fs \<subseteq> {0, k}"
    by auto
  from Cons.prems(1,4) have "settling b k (Suc (length fs)) s"
    and "Suc (length fs) * cycle_ticks b s < KEYPAD_DEBOUNCE_TIME b"
    by simp_all
  note step = settling_step [OF this(1) \<open>k \<noteq> 0\<close> key this(2)]
  have "length fs * cycle_ticks b (poll_cycle b key s) < KEYPAD_DEBOUNCE_TIME b"
    using Cons.prems(4) by (simp add: poll_cycle_ticks)
  from Cons.IH [OF conjunct1 [OF step] \<open>k \<noteq> 0\<close> fs this] show ?case
    using step by simp
qed

lemma queue_full_state_eq:
  "queue_full_state =
    \<lparr>keypad = \<lparr>col_count = 4, row_count = 4, keys_pressed = 2, keys_down = 2,
                timer_debounce = Some 684\<rparr>,
     keypad_event_group = 1, keypad_queue = replicate 10 1,
     row_lines = [True, True, True, True], tick_count = 684, task_created = True,
     calls = concat (replicate 10 [SetBits 1, QueueSend 1])\<rparr>"
  by code_simp

section \<open>Debounce timing\<close>

text \<open>
  C7. From a state with an empty accumulator, a key mask \<open>k\<close> is scanned for \<open>n\<close>
  consecutive cycles (\<open>n\<close> at least 1) and the next scan is empty. If the \<open>n\<close> cycles
  take fewer ticks than the debounce period, the timer is still active when the empty
  scan is seen and nothing is dispatched. If they take at least the debounce period,
  exactly one release is dispatched: the bits of \<open>k\<close> within the event mask are set in
  the event group and \<open>k\<close> is sent to the queue.
\<close>

theorem debounce_timing_lower_bound:
  assumes "keys_down (keypad s) = 0" "k \<noteq> 0" "0 < n"
  shows "calls (poll b (replicate n k @ [0]) s) =
     (if n * cycle_ticks b s < KEYPAD_DEBOUNCE_TIME b
      then calls s
      else calls s @ [SetBits (k AND KEY_EVENT_BITMASK), QueueSend k])"
proof -
  from \<open>0 < n\<close> obtain m where n: "n = Suc m" by (cases n) simp_all
  have "keys_down (keypad s) OR k = k" "keys_down (keypad s) \<noteq> k"
    using assms by simp_all
  from poll_press_release [OF this, of b m] show ?thesis
    by (simp only: n)
qed

theorem debounce_timing_lower_bound_witness:
  "keys_down (keypad (power_on gd32_board)) = 0 \<and> (1 :: u32) \<noteq> 0 \<and> (0 :: nat) < 5
   \<and> calls (poll gd32_board (replicate 5 1 @ [0]) (power_on gd32_board)) = []
   \<and> (0 :: nat) < 6
   \<and> calls (poll gd32_board (replicate 6 1 @ [0]) (power_on gd32_board))
       = [SetBits 1, QueueSend 1]"
  using debounce_timing_lower_bound [of "power_on gd32_board" 1 5 gd32_board]
    debounce_timing_lower_bound [of "power_on gd32_board" 1 6 gd32_board]
  by (simp add: KEY_EVENT_BITMASK_def)

text \<open>
  C2. A single key mask \<open>k\<close> flickers: starting from an empty accumulator, the scans of
  the flicker period \<open>fs\<close> are each empty or \<open>k\<close>, in any order, and together take
  fewer ticks than the debounce period. The key is then held for \<open>n\<close> cycles that take
  at least the debounce period, and released. Over the whole sequence exactly one release
  is dispatched, and its mask is \<open>k\<close>: the only bits seen pressed during the flicker.
\<close>

theorem flicker_single_event:
  assumes "keys_down (keypad s) = 0" and "k \<noteq> 0" and "set fs \<subseteq> {0, k}"
    and "length fs * cycle_ticks b s < KEYPAD_DEBOUNCE_TIME b"
    and "KEYPAD_DEBOUNCE_TIME b \<le> n * cycle_ticks b s"
  shows "calls (poll b (fs @ replicate n k @ [0]) s) =
           calls s @ [SetBits (k AND KEY_EVENT_BITMASK), QueueSend k]"
proof -
  let ?s = "poll b fs s"
  have "settling b k (length fs) s"
    using assms(1) by (simp add: settling_def)
  from poll_flicker [OF this assms(2,3,4)]
  have st: "settling b k 0 ?s" and c: "calls ?s = calls s"
    by simp_all
  from assms(4,5) have "0 < n" by (cases n) simp_all
  then obtain n' where n: "n = Suc n'" by (cases n) simp_all
  have "calls (poll b (replicate n k @ [0]) ?s) =
          calls ?s @ [SetBits (k AND KEY_EVENT_BITMASK), QueueSend k]"
  proof (cases "keys_down (keypad ?s) = k")
    case True
    with st assms(2) obtain e where e: "timer_debounce (keypad ?s) = Some e"
      "e \<le> tick_count ?s + scan_ticks b ?s + KEYPAD_DEBOUNCE_TIME b"
      by (auto simp: settling_def)
    show ?thesis
      unfolding poll_hold_release [OF True assms(2)]
      using e assms(5) by (simp add: poll_ticks)
  next
    case False
    with st have "keys_down (keypad ?s) = 0"
      by (auto simp: settling_def)
    then have "keys_down (keypad ?s) OR k = k" "keys_down (keypad ?s) \<noteq> k"
      using assms(2) by simp_all
    from poll_press_release [OF this, of b n'] show ?thesis
      using assms(5) by (simp add: n poll_ticks)
  qed
  then show ?thesis
    by (simp add: poll_append c)
qed

theorem flicker_single_event_witness:
  "keys_down (keypad (power_on gd32_board)) = 0 \<and> (1 :: u32) \<noteq> 0
   \<and> set [1, 0, 1, 0] \<subseteq> {0, 1 :: u32}
   \<and> length [1, 0, 1, 0 :: u32] * cycle_ticks gd32_board (power_on gd32_board)
        < KEYPAD_DEBOUNCE_TIME gd32_board
   \<and> KEYPAD_DEBOUNCE_TIME gd32_board \<le> 6 * cycle_ticks gd32_board (power_on gd32_board)
   \<and> calls (poll gd32_board ([1, 0, 1, 0] @ replicate 6 1 @ [0]) (power_on gd32_board))
       = [SetBits 1, QueueSend 1]"
  using flicker_single_event [of "power_on gd32_board" 1 "[1, 0, 1, 0]" gd32_board 6]
  by (simp add: KEY_EVENT_BITMASK_def)

text \<open>
  C5. Chording. From an empty accumulator, key mask \<open>a\<close> is scanned alone for \<open>m\<close>
  cycles, then \<open>a\<close> together with \<open>c\<close> for \<open>n\<close> cycles that take at least the
  debounce period, then the scan is empty. Exactly one release is dispatched, and its
  mask is \<open>a OR c\<close>.
\<close>

theorem chord_accumulates:
  assumes "keys_down (keypad s) = 0" and "a \<noteq> 0" and "0 < m" and "0 < n"
    and "KEYPAD_DEBOUNCE_TIME b \<le> n * cycle_ticks b s"
  shows "calls (poll b (replicate m a @ replicate n (a OR c) @ [0]) s) =
           calls s @ [SetBits ((a OR c) AND KEY_EVENT_BITMASK), QueueSend (a OR c)]"
proof -
  from \<open>0 < m\<close> obtain m' where m: "m = Suc m'" by (cases m) simp_all
  from \<open>0 < n\<close> obtain n' where n: "n = Suc n'" by (cases n) simp_all
  let ?s = "poll b (replicate m a) s"
  have "keys_down (keypad s) OR a = a" "keys_down (keypad s) \<noteq> a"
    using assms by simp_all
  note p = poll_press [OF this, of b m', folded m]
  show ?thesis
  proof (cases "a OR c = a")
    case True
    have "calls (poll b (replicate n a @ [0]) ?s) =
            calls s @ [SetBits (a AND KEY_EVENT_BITMASK), QueueSend a]"
      unfolding poll_hold_release [of ?s a b n, OF conjunct1 [OF p] \<open>a \<noteq> 0\<close>]
      using assms(5) by (simp add: p poll_tick_count poll_ticks)
    with True show ?thesis by (simp add: poll_append)
  next
    case False
    have "keys_down (keypad ?s) OR (a OR c) = a OR c" "keys_down (keypad ?s) \<noteq> a OR c"
      using False by (simp_all add: p or.assoc [symmetric])
    from poll_press_release [OF this, of b n'] show ?thesis
      using assms(5) by (simp add: poll_append n p poll_ticks)
  qed
qed

theorem chord_accumulates_witness:
  "keys_down (keypad (power_on gd32_board)) = 0 \<and> (1 :: u32) \<noteq> 0 \<and> (0 :: nat) < 2
   \<and> (0 :: nat) < 6
   \<and> KEYPAD_DEBOUNCE_TIME gd32_board \<le> 6 * cycle_ticks gd32_board (power_on gd32_board)
   \<and> calls (poll gd32_board (replicate 2 1 @ replicate 6 (1 OR 2) @ [0]) (power_on gd32_board))
       = [SetBits 3, QueueSend 3]"
  using chord_accumulates [of "power_on gd32_board" 1 2 6 gd32_board 2]
  by (simp add: KEY_EVENT_BITMASK_def)

section \<open>Idle and release\<close>

text \<open>
  C8. From any state with an empty accumulator, in particular the one in which the task
  enters its loop, any number of cycles with an empty scan dispatches nothing: no call is
  made, the event group and the queue are as before, and the accumulator is empty after
  every one of them.
\<close>

theorem idle_never_dispatches:
  assumes "keys_down (keypad s) = 0"
  shows "keys_down (keypad (poll b (replicate n 0) s)) = 0
       \<and> calls (poll b (replicate n 0) s) = calls s
       \<and> keypad_event_group (poll b (replicate n 0) s) = keypad_event_group s
       \<and> keypad_queue (poll b (replicate n 0) s) = keypad_queue s"
  using assms by (rule poll_idle)

theorem idle_never_dispatches_witness:
  "keys_down (keypad (power_on gd32_board)) = 0
   \<and> keys_down (keypad (poll gd32_board (replicate 7 0) (power_on gd32_board))) = 0
   \<and> calls (poll gd32_board (replicate 7 0) (power_on gd32_board)) = []
   \<and> keypad_event_group (poll gd32_board (replicate 7 0) (power_on gd32_board)) = 0
   \<and> keypad_queue (poll gd32_board (replicate 7 0) (power_on gd32_board)) = []"
  using idle_never_dispatches [of "power_on gd32_board" gd32_board 7]
  by simp

text \<open>
  C10. In a run of consecutive cycles with an empty scan, from any state, only the first
  cycle can dispatch: the calls made by the whole run are those of its first cycle, which
  are none or one release, and the accumulator is empty from the first cycle on.
\<close>

theorem one_dispatch_per_release:
  "keys_down (keypad (poll b (replicate (Suc n) 0) s)) = 0
   \<and> calls (poll b (replicate (Suc n) 0) s) = calls (poll_cycle b 0 s)
   \<and> (calls (poll_cycle b 0 s) = calls s
      \<or> calls (poll_cycle b 0 s) =
          calls s @ [SetBits (keys_down (keypad s) AND KEY_EVENT_BITMASK),
                     QueueSend (keys_down (keypad s))])"
proof -
  have "keys_down (keypad (poll_cycle b 0 s)) = 0"
    by (simp add: poll_cycle_keys_down)
  from poll_idle [OF this, of b n] show ?thesis
    by (simp add: poll_cycle_calls)
qed

text \<open>
  C1, as the code has it. A cycle leaves the accumulator empty exactly when its scan is
  empty, whatever the timer says. When the scan is empty and the timer is still active,
  nothing is dispatched: no call is made and the event group and the queue are unchanged.
\<close>

theorem empty_scan_clears_accumulator:
  "(keys_down (keypad (poll_cycle b key s)) = 0 \<longleftrightarrow> key = 0)
   \<and> (key = 0 \<and> xTimerIsTimerActive (scan_wait b s) \<longrightarrow>
        calls (poll_cycle b key s) = calls s
        \<and> keypad_event_group (poll_cycle b key s) = keypad_event_group s
        \<and> keypad_queue (poll_cycle b key s) = keypad_queue s)"
  by (simp add: poll_cycle_keys_down poll_cycle_calls poll_cycle_event_group poll_cycle_queue
      or_eq_0_iff)

theorem empty_scan_clears_accumulator_witness:
  "(keys_down (keypad (poll_cycle gd32_board 0 (poll_cycle gd32_board 1 (power_on gd32_board)))) = 0)
   \<and> xTimerIsTimerActive (scan_wait gd32_board (poll_cycle gd32_board 1 (power_on gd32_board)))
   \<and> calls (poll_cycle gd32_board 0 (poll_cycle gd32_board 1 (power_on gd32_board))) = []
   \<and> keypad_event_group (poll_cycle gd32_board 0 (poll_cycle gd32_board 1 (power_on gd32_board))) = 0
   \<and> keypad_queue (poll_cycle gd32_board 0 (poll_cycle gd32_board 1 (power_on gd32_board))) = []"
  using empty_scan_clears_accumulator
    [of gd32_board 0 "poll_cycle gd32_board 1 (power_on gd32_board)"]
  by (simp add: active_at_decision poll_cycle_timer poll_cycle_tick_count poll_cycle_ticks
      poll_cycle_calls poll_cycle_event_group poll_cycle_queue)

text \<open>
  C1, as stated, fails after one cycle in which key mask 1 was scanned: the accumulator
  is not empty and the timer is active, yet the next cycle, with an empty scan, changes
  the accumulator, and it does so without dispatching a release.
\<close>

theorem settling_release_keeps_accumulator_counterexample:
  "keys_down (keypad (poll_cycle gd32_board 1 (power_on gd32_board))) = 1
   \<and> xTimerIsTimerActive (scan_wait gd32_board (poll_cycle gd32_board 1 (power_on gd32_board)))
   \<and> keys_down (keypad (poll_cycle gd32_board 0 (poll_cycle gd32_board 1 (power_on gd32_board))))
       = 0
   \<and> keys_down (keypad (poll_cycle gd32_board 0 (poll_cycle gd32_board 1 (power_on gd32_board))))
       \<noteq> keys_down (keypad (poll_cycle gd32_board 1 (power_on gd32_board)))
   \<and> calls (poll_cycle gd32_board 0 (poll_cycle gd32_board 1 (power_on gd32_board)))
       = calls (poll_cycle gd32_board 1 (power_on gd32_board))"
  by (simp add: active_at_decision poll_cycle_timer poll_cycle_tick_count poll_cycle_ticks
      poll_cycle_calls poll_cycle_keys_down)

section \<open>Dispatch into a full queue\<close>

text \<open>
  C9. A release is confirmed while the queue holds \<^verbatim>\<open>KEYPAD_QUEUE_SIZE\<close> messages. The
  queue keeps exactly these messages in their order and the new one is dropped; the bits
  of the release are still set in the event group; the cycle takes the same number of
  ticks as every other cycle, so the task did not wait on the queue.
\<close>

theorem full_queue_drops_message:
  assumes "length (keypad_queue s) = KEYPAD_QUEUE_SIZE"
    and "keys_down (keypad s) \<noteq> 0"
    and "\<not> xTimerIsTimerActive (scan_wait b s)"
  shows "keypad_queue (poll_cycle b 0 s) = keypad_queue s
       \<and> length (keypad_queue (poll_cycle b 0 s)) = KEYPAD_QUEUE_SIZE
       \<and> keypad_event_group (poll_cycle b 0 s) =
           keypad_event_group s OR (keys_down (keypad s) AND KEY_EVENT_BITMASK)
       \<and> calls (poll_cycle b 0 s) =
           calls s @ [SetBits (keys_down (keypad s) AND KEY_EVENT_BITMASK),
                      QueueSend (keys_down (keypad s))]
       \<and> tick_count (poll_cycle b 0 s) = tick_count s + cycle_ticks b s"
  using assms
  by (simp add: poll_cycle_queue poll_cycle_event_group poll_cycle_calls poll_cycle_tick_count)

theorem full_queue_drops_message_witness:
  "length (keypad_queue queue_full_state) = KEYPAD_QUEUE_SIZE
   \<and> keys_down (keypad queue_full_state) \<noteq> 0
   \<and> \<not> xTimerIsTimerActive (scan_wait gd32_board queue_full_state)
   \<and> keypad_queue (poll_cycle gd32_board 0 queue_full_state) = replicate 10 1
   \<and> length (keypad_queue (poll_cycle gd32_board 0 queue_full_state)) = KEYPAD_QUEUE_SIZE
   \<and> keypad_event_group (poll_cycle gd32_board 0 queue_full_state) = 3
   \<and> calls (poll_cycle gd32_board 0 queue_full_state) =
        concat (replicate 10 [SetBits 1, QueueSend 1]) @ [SetBits 2, QueueSend 2]
   \<and> tick_count (poll_cycle gd32_board 0 queue_full_state) = 693"
  using full_queue_drops_message [of queue_full_state gd32_board]
  by (simp add: queue_full_state_eq KEYPAD_QUEUE_SIZE_def active_at_decision
      KEY_EVENT_BITMASK_def cycle_ticks_def scan_ticks_def gd32_board_def
      KEYPAD_GPIO_STABILIZATION_TIME_def KEYPAD_TASK_DELAY_TIME_def)

section \<open>Scanner\<close>

lemma bit_shl1:
  "n < 31 \<Longrightarrow> bit (push_bit n 1 :: u32) i \<longleftrightarrow> i = n"
  "n < 31 \<Longrightarrow> bit (2 ^ n :: u32) i \<longleftrightarrow> i = n"
  by (auto simp: bit_exp_iff)

lemma get_row_low:
  assumes "rows_released s" and "row < length (row_lines s)"
  shows "KEYPAD_GPIO_GET closed (KEYPAD_GPIO_RESET row s) col = 0 \<longleftrightarrow> closed row col"
    and "KEYPAD_GPIO_GET closed (vTaskDelay d (KEYPAD_GPIO_RESET row s)) col = 0
           \<longleftrightarrow> closed row col"
proof -
  have "\<not> (row_lines s)[row := False] ! r \<longleftrightarrow> r = row" if "r < length (row_lines s)" for r
    using assms that rows_released_nth [of s r] by (auto simp: nth_list_update)
  then show "KEYPAD_GPIO_GET closed (KEYPAD_GPIO_RESET row s) col = 0 \<longleftrightarrow> closed row col"
    using assms(2)
    by (auto simp: KEYPAD_GPIO_GET_def KEYPAD_GPIO_RESET_def list_ex_iff)
  then show "KEYPAD_GPIO_GET closed (vTaskDelay d (KEYPAD_GPIO_RESET row s)) col = 0
           \<longleftrightarrow> closed row col"
    by (simp add: KEYPAD_GPIO_GET_def vTaskDelay_def)
qed

lemma scan_cols_bits:
  assumes "\<forall>c. col \<le> c \<and> c < unat (col_count (keypad s)) \<and> KEYPAD_GPIO_GET closed s c = 0
             \<longrightarrow> row * unat (col_count (keypad s)) + c < 31"
  shows "\<exists>key'. scan_cols closed s row col key = Inr key' \<and>
     (\<forall>n. bit key' n \<longleftrightarrow> bit key n \<or>
        (\<exists>c. col \<le> c \<and> c < unat (col_count (keypad s)) \<and> KEYPAD_GPIO_GET closed s c = 0
           \<and> n = row * unat (col_count (keypad s)) + c))"
  using assms
proof (induction closed s row col key rule: scan_cols.induct)
  case (1 closed s row col key)
  let ?cc = "unat (col_count (keypad s))"
  show ?case
  proof (cases "col < ?cc")
    case False
    then show ?thesis
      by (subst scan_cols.simps) auto
  next
    case True
    have split: "col \<le> c \<longleftrightarrow> c = col \<or> Suc col \<le> c" for c
      by auto
    show ?thesis
    proof (cases "KEYPAD_GPIO_GET closed s col = 0")
      case pressed: True
      with True "1.prems" have idx: "row * ?cc + col < 31"
        by auto
      then have shl: "shl1 (row * ?cc + col) = Inr (push_bit (row * ?cc + col) 1)"
        by (simp add: shl1_def)
      from "1.prems" have "\<forall>c. Suc col \<le> c \<and> c < ?cc \<and> KEYPAD_GPIO_GET closed s c = 0
             \<longrightarrow> row * ?cc + c < 31"
        by auto
      from "1.IH"(1) [OF True pressed shl this]
      obtain key' where k: "scan_cols closed s row (Suc col) (key OR push_bit (row * ?cc + col) 1) = Inr key'"
        and b: "\<And>n. bit key' n \<longleftrightarrow> bit (key OR push_bit (row * ?cc + col) 1) n \<or>
          (\<exists>c. Suc col \<le> c \<and> c < ?cc \<and> KEYPAD_GPIO_GET closed s c = 0 \<and> n = row * ?cc + c)"
        by blast
      have "scan_cols closed s row col key = Inr key'"
        using True pressed shl k by (subst scan_cols.simps) simp
      moreover have "bit key' n \<longleftrightarrow> bit key n \<or>
          (\<exists>c. col \<le> c \<and> c < ?cc \<and> KEYPAD_GPIO_GET closed s c = 0 \<and> n = row * ?cc + c)" for n
        unfolding b split using True pressed idx
        by (auto simp: bit_or_iff bit_shl1)
      ultimately show ?thesis by blast
    next
      case released: False
      from "1.prems" have "\<forall>c. Suc col \<le> c \<and> c < ?cc \<and> KEYPAD_GPIO_GET closed s c = 0
             \<longrightarrow> row * ?cc + c < 31"
        by auto
      from "1.IH"(2) [OF True released this]
      obtain key' where k: "scan_cols closed s row (Suc col) key = Inr key'"
        and b: "\<And>n. bit key' n \<longleftrightarrow> bit key n \<or>
          (\<exists>c. Suc col \<le> c \<and> c < ?cc \<and> KEYPAD_GPIO_GET closed s c = 0 \<and> n = row * ?cc + c)"
        by blast
      have "scan_cols closed s row col key = Inr key'"
        using True released k by (subst scan_cols.simps) simp
      moreover have "bit key' n \<longleftrightarrow> bit key n \<or>
          (\<exists>c. col \<le> c \<and> c < ?cc \<and> KEYPAD_GPIO_GET closed s c = 0 \<and> n = row * ?cc + c)" for n
        unfolding b split using released
        by auto
      ultimately show ?thesis by blast
    qed
  qed
qed

lemma scan_row_restore:
  assumes "rows_released s"
  shows "KEYPAD_GPIO_SET row (vTaskDelay d (KEYPAD_GPIO_RESET row s)) = vTaskDelay d s"
proof -
  have "KEYPAD_GPIO_SET row (vTaskDelay d (KEYPAD_GPIO_RESET row s)) =
          vTaskDelay d (KEYPAD_GPIO_SET row s)"
    by (simp add: KEYPAD_GPIO_SET_def KEYPAD_GPIO_RESET_def vTaskDelay_def)
  with assms show ?thesis
    by (simp add: rows_released_set_line)
qed

lemma vTaskDelay_fields [simp]:
  "keypad (KEYPAD_GPIO_RESET row s) = keypad s"
  "keypad (KEYPAD_GPIO_SET row s) = keypad s"
  "keypad (vTaskDelay d s) = keypad s"
  "row_lines (vTaskDelay d s) = row_lines s"
  "rows_released (vTaskDelay d s) = rows_released s"
  "vTaskDelay d (vTaskDelay e s) = vTaskDelay (e + d) s"
  by (simp_all add: vTaskDelay_def KEYPAD_GPIO_RESET_def KEYPAD_GPIO_SET_def rows_released_def
      add.assoc)

lemma scan_rows_bits:
  assumes "rows_released s"
    and "\<forall>r c. row \<le> r \<and> r < unat (row_count (keypad s)) \<and> c < unat (col_count (keypad s))
            \<and> closed r c \<longrightarrow> r * unat (col_count (keypad s)) + c < 31"
  shows "\<exists>key'. scan_rows b closed row key s =
           Inr (key', vTaskDelay ((unat (row_count (keypad s)) - row)
                                    * KEYPAD_GPIO_STABILIZATION_TIME b) s) \<and>
     (\<forall>n. bit key' n \<longleftrightarrow> bit key n \<or>
        (\<exists>r c. row \<le> r \<and> r < unat (row_count (keypad s)) \<and> c < unat (col_count (keypad s))
           \<and> closed r c \<and> n = r * unat (col_count (keypad s)) + c))"
  using assms
proof (induction b closed row key s rule: scan_rows.induct)
  case (1 b closed row key s)
  let ?rc = "unat (row_count (keypad s))"
  let ?cc = "unat (col_count (keypad s))"
  let ?d = "KEYPAD_GPIO_STABILIZATION_TIME b"
  show ?case
  proof (cases "row < ?rc")
    case False
    then show ?thesis
      by (subst scan_rows.simps) (auto simp: vTaskDelay_def)
  next
    case True
    let ?s2 = "vTaskDelay ?d (KEYPAD_GPIO_RESET row s)"
    from True "1.prems"(1) have len: "row < length (row_lines s)"
      by (simp add: rows_released_def)
    have get: "KEYPAD_GPIO_GET closed ?s2 c = 0 \<longleftrightarrow> closed row c" for c
      by (rule get_row_low(2) [OF "1.prems"(1) len])
    have kp: "keypad ?s2 = keypad s"
      by simp
    have "\<forall>c. 0 \<le> c \<and> c < unat (col_count (keypad ?s2)) \<and> KEYPAD_GPIO_GET closed ?s2 c = 0
             \<longrightarrow> row * unat (col_count (keypad ?s2)) + c < 31"
      using "1.prems"(2) True by (auto simp: kp get)
    from scan_cols_bits [OF this, of key]
    obtain key1 where k1: "scan_cols closed ?s2 row 0 key = Inr key1"
      and b1: "\<And>n. bit key1 n \<longleftrightarrow> bit key n \<or>
          (\<exists>c. c < ?cc \<and> closed row c \<and> n = row * ?cc + c)"
      by (auto simp: kp get)
    have restore: "KEYPAD_GPIO_SET row ?s2 = vTaskDelay ?d s"
      by (rule scan_row_restore [OF "1.prems"(1)])
    have "rows_released (KEYPAD_GPIO_SET row ?s2)"
      using "1.prems"(1) by (simp add: restore)
    moreover have "\<forall>r c. Suc row \<le> r \<and> r < unat (row_count (keypad (KEYPAD_GPIO_SET row ?s2)))
            \<and> c < unat (col_count (keypad (KEYPAD_GPIO_SET row ?s2)))
            \<and> closed r c \<longrightarrow> r * unat (col_count (keypad (KEYPAD_GPIO_SET row ?s2))) + c < 31"
      using "1.prems"(2) by (auto simp: restore)
    ultimately obtain key' where
      k: "scan_rows b closed (Suc row) key1 (KEYPAD_GPIO_SET row ?s2) =
            Inr (key', vTaskDelay ((?rc - Suc row) * ?d) (vTaskDelay ?d s))"
      and b: "\<And>n. bit key' n \<longleftrightarrow> bit key1 n \<or>
          (\<exists>r c. Suc row \<le> r \<and> r < ?rc \<and> c < ?cc \<and> closed r c \<and> n = r * ?cc + c)"
      using "1.IH" [OF True refl refl k1] by (auto simp: restore)
    have "(?rc - Suc row) * ?d + ?d = (?rc - row) * ?d"
      using True by (simp add: Suc_diff_Suc [symmetric] del: Suc_diff_Suc)
    then have "scan_rows b closed row key s = Inr (key', vTaskDelay ((?rc - row) * ?d) s)"
      using True k1 k by (subst scan_rows.simps) (simp add: Let_def add.commute)
    moreover have split: "row \<le> r \<longleftrightarrow> r = row \<or> Suc row \<le> r" for r
      by auto
    have "bit key' n \<longleftrightarrow> bit key n \<or>
        (\<exists>r c. row \<le> r \<and> r < ?rc \<and> c < ?cc \<and> closed r c \<and> n = r * ?cc + c)" for n
      unfolding b b1 split using True by auto
    ultimately show ?thesis by blast
  qed
qed

lemma keypad_scan_bits:
  assumes "rows_released s"
    and "unat (row_count (keypad s)) * unat (col_count (keypad s)) \<le> 31"
  shows "\<exists>key. keypad_scan b closed s = Inr (key, scan_wait b s) \<and>
     (\<forall>n. bit key n \<longleftrightarrow>
        (\<exists>r c. r < unat (row_count (keypad s)) \<and> c < unat (col_count (keypad s))
           \<and> closed r c \<and> n = r * unat (col_count (keypad s)) + c))"
proof -
  let ?rc = "unat (row_count (keypad s))"
  let ?cc = "unat (col_count (keypad s))"
  have "r * ?cc + c < 31" if "r < ?rc" "c < ?cc" for r c
  proof -
    from that have "r * ?cc + c < Suc r * ?cc" by simp
    also from that have "Suc r * ?cc \<le> ?rc * ?cc"
      by (intro mult_le_mono1) simp
    finally have "r * ?cc + c < ?rc * ?cc" .
    with assms(2) show ?thesis by simp
  qed
  then have "\<forall>r c. 0 \<le> r \<and> r < ?rc \<and> c < ?cc \<and> closed r c \<longrightarrow> r * ?cc + c < 31"
    by simp
  from scan_rows_bits [OF assms(1) this, of b 0] show ?thesis
    by (simp add: keypad_scan_def scan_wait_def scan_ticks_def)
qed

lemma key_index_inj:
  fixes cc :: nat
  assumes "c < cc" and "c' < cc" and "r * cc + c = r' * cc + c'"
  shows "r = r' \<and> c = c'"
proof -
  from assms(1) have "(r * cc + c) div cc = r" "(r * cc + c) mod cc = c"
    by simp_all
  moreover from assms(2) have "(r' * cc + c') div cc = r'" "(r' * cc + c') mod cc = c'"
    by simp_all
  ultimately show ?thesis
    using assms(3) by simp
qed

lemma key_index_bound:
  fixes cc :: nat
  assumes "r < rc" and "c < cc"
  shows "r * cc + c < rc * cc"
proof -
  from assms have "r * cc + c < Suc r * cc" by simp
  also from assms have "Suc r * cc \<le> rc * cc"
    by (intro mult_le_mono1) simp
  finally show ?thesis .
qed

text \<open>
  C4. The lines are released, as between two scans, and the matrix has at most 31 keys,
  so that every shift of the scan is defined (the specification asks for at most 24).
  Then the scan returns a bitmask and takes one stabilisation delay for each row.
  A key \<open>(r, c)\<close> of the matrix is read as closed, that is its bit \<open>r * col_count + c\<close>
  is set in the bitmask, exactly when column \<open>c\<close> reads 0 while row \<open>r\<close> is driven low.
  When exactly one contact of the matrix is closed, at \<open>(row, col)\<close>, the bitmask is
  \<open>1 << (row * col_count + col)\<close>.
\<close>

theorem scan_bit_positions:
  assumes "rows_released s"
    and "unat (row_count (keypad s)) * unat (col_count (keypad s)) \<le> 31"
  shows "\<exists>key. keypad_scan b closed s = Inr (key, scan_wait b s)
     \<and> (\<forall>r c. r < unat (row_count (keypad s)) \<and> c < unat (col_count (keypad s)) \<longrightarrow>
           (bit key (r * unat (col_count (keypad s)) + c) \<longleftrightarrow>
              KEYPAD_GPIO_GET closed (KEYPAD_GPIO_RESET r s) c = 0))
     \<and> (\<forall>row col. row < unat (row_count (keypad s)) \<and> col < unat (col_count (keypad s))
           \<and> (\<forall>r c. r < unat (row_count (keypad s)) \<and> c < unat (col_count (keypad s)) \<longrightarrow>
                 (closed r c \<longleftrightarrow> r = row \<and> c = col))
           \<longrightarrow> key = push_bit (row * unat (col_count (keypad s)) + col) 1)"
proof -
  let ?rc = "unat (row_count (keypad s))"
  let ?cc = "unat (col_count (keypad s))"
  from keypad_scan_bits [OF assms, of b closed]
  obtain key where scan: "keypad_scan b closed s = Inr (key, scan_wait b s)"
    and bits: "\<And>n. bit key n \<longleftrightarrow>
        (\<exists>r c. r < ?rc \<and> c < ?cc \<and> closed r c \<and> n = r * ?cc + c)"
    by blast
  have low: "bit key (r * ?cc + c) \<longleftrightarrow> KEYPAD_GPIO_GET closed (KEYPAD_GPIO_RESET r s) c = 0"
    if "r < ?rc" "c < ?cc" for r c
  proof -
    from that(1) assms(1) have "r < length (row_lines s)"
      by (simp add: rows_released_def)
    then have "KEYPAD_GPIO_GET closed (KEYPAD_GPIO_RESET r s) c = 0 \<longleftrightarrow> closed r c"
      by (rule get_row_low(1) [OF assms(1)])
    moreover have "bit key (r * ?cc + c) \<longleftrightarrow> closed r c"
    proof
      assume "bit key (r * ?cc + c)"
      then obtain r' c' where "c' < ?cc" "closed r' c'" "r * ?cc + c = r' * ?cc + c'"
        unfolding bits by blast
      with key_index_inj [OF that(2) this(1,3)] show "closed r c"
        by simp
    next
      assume "closed r c"
      with that show "bit key (r * ?cc + c)"
        unfolding bits by blast
    qed
    ultimately show ?thesis by simp
  qed
  have single: "key = push_bit (row * ?cc + col) 1"
    if "row < ?rc" "col < ?cc"
      and only: "\<forall>r c. r < ?rc \<and> c < ?cc \<longrightarrow> (closed r c \<longleftrightarrow> r = row \<and> c = col)"
    for row col
  proof -
    from that(1,2) assms(2) have idx: "row * ?cc + col < 31"
      using key_index_bound [of row ?rc col ?cc] by simp
    have "bit key n \<longleftrightarrow> n = row * ?cc + col" for n
    proof
      assume "bit key n"
      then obtain r c where "r < ?rc" "c < ?cc" "closed r c" "n = r * ?cc + c"
        unfolding bits by blast
      with only show "n = row * ?cc + col"
        by blast
    next
      assume "n = row * ?cc + col"
      moreover from only that(1,2) have "closed row col"
        by blast
      ultimately show "bit key n"
        unfolding bits using that(1,2) by blast
    qed
    then show ?thesis
      by (intro bit_eqI) (simp add: bit_shl1 [OF idx])
  qed
  from scan low single show ?thesis by blast
qed

theorem scan_bit_positions_witness:
  "rows_released (power_on gd32_board)
   \<and> unat (row_count (keypad (power_on gd32_board)))
       * unat (col_count (keypad (power_on gd32_board))) \<le> 31
   \<and> keypad_scan gd32_board (\<lambda>r c. r = 2 \<and> c = 1) (power_on gd32_board)
       = Inr (512, scan_wait gd32_board (power_on gd32_board))"
proof -
  have counts: "unat (row_count (keypad (power_on gd32_board))) = 4"
    "unat (col_count (keypad (power_on gd32_board))) = 4"
    by (simp_all add: power_on_eq gd32_board_def)
  have ready: "rows_released (power_on gd32_board)"
    by (rule rows_released_power_on)
  have small: "unat (row_count (keypad (power_on gd32_board)))
       * unat (col_count (keypad (power_on gd32_board))) \<le> 31"
    by (simp add: counts)
  from scan_bit_positions [OF ready small, of gd32_board "\<lambda>r c. r = 2 \<and> c = 1"]
  obtain key where "keypad_scan gd32_board (\<lambda>r c. r = 2 \<and> c = 1) (power_on gd32_board)
       = Inr (key, scan_wait gd32_board (power_on gd32_board))"
    and "\<forall>row col. row < 4 \<and> col < 4
           \<and> (\<forall>r c. r < 4 \<and> c < 4 \<longrightarrow> ((r = 2 \<and> c = 1) \<longleftrightarrow> r = row \<and> c = col))
           \<longrightarrow> key = push_bit (row * 4 + col) 1"
    unfolding counts by blast
  moreover from this(2) have "key = push_bit (2 * 4 + 1) 1"
    by (elim allE [of _ 2] allE [of _ 1]) simp
  ultimately show ?thesis
    using ready small by simp
qed

section \<open>Width of the dispatched masks\<close>

lemma KEY_EVENT_BITMASK_mask: "KEY_EVENT_BITMASK = mask 24"
  by (simp add: KEY_EVENT_BITMASK_def mask_eq_exp_minus_1)

lemma within_mask_iff:
  "within_mask v \<longleftrightarrow> drop_bit 24 v = 0"
  by (simp add: within_mask_def KEY_EVENT_BITMASK_mask take_bit_eq_mask [symmetric]
      take_bit_eq_self_iff_drop_bit_eq_0)

lemma within_mask_fun:
  "within_mask = (\<lambda>v. drop_bit 24 v = 0)"
  by (rule ext) (rule within_mask_iff)

lemma within_mask_bits:
  "within_mask v \<longleftrightarrow> (\<forall>n. bit v n \<longrightarrow> n < 24)"
proof
  assume v: "within_mask v"
  show "\<forall>n. bit v n \<longrightarrow> n < 24"
  proof (intro allI impI)
    fix n
    assume "bit v n"
    with v have "bit (v AND mask 24) n"
      by (simp add: within_mask_def KEY_EVENT_BITMASK_mask)
    then show "n < 24"
      by (simp add: bit_and_iff bit_mask_iff)
  qed
next
  assume "\<forall>n. bit v n \<longrightarrow> n < 24"
  then have "v AND mask 24 = v"
    by (intro bit_eqI) (auto simp: bit_and_iff bit_mask_iff)
  then show "within_mask v"
    by (simp add: within_mask_def KEY_EVENT_BITMASK_mask)
qed

lemma within_mask_simps [simp]:
  "within_mask 0"
  "within_mask a \<Longrightarrow> within_mask b \<Longrightarrow> within_mask (a OR b)"
  by (auto simp: within_mask_bits bit_or_iff)

lemma within_mask_and [simp]:
  "within_mask a \<Longrightarrow> a AND KEY_EVENT_BITMASK = a"
  by (simp add: within_mask_def)

lemma paired_append:
  "paired cs \<Longrightarrow> paired (cs @ [SetBits m, QueueSend m])"
  by (induction cs rule: paired.induct) simp_all

lemma poll_cycle_width_ok:
  assumes "dispatch_width_ok s" and "within_mask key"
  shows "dispatch_width_ok (poll_cycle b key s)"
  using assms
  by (simp add: dispatch_width_ok_def poll_cycle_keys_down poll_cycle_event_group
      poll_cycle_queue poll_cycle_calls paired_append)

lemma keypad_read_cycle_poll:
  assumes "rows_released s"
    and "unat (row_count (keypad s)) * unat (col_count (keypad s)) \<le> 24"
  shows "\<exists>key. keypad_read_cycle b closed s = Inr (poll_cycle b key s) \<and> within_mask key"
proof -
  let ?rc = "unat (row_count (keypad s))"
  let ?cc = "unat (col_count (keypad s))"
  from assms(2) have "?rc * ?cc \<le> 31" by simp
  from keypad_scan_bits [OF assms(1) this, of b closed]
  obtain key where scan: "keypad_scan b closed s = Inr (key, scan_wait b s)"
    and bits: "\<And>n. bit key n \<longleftrightarrow>
        (\<exists>r c. r < ?rc \<and> c < ?cc \<and> closed r c \<and> n = r * ?cc + c)"
    by blast
  have "n < 24" if "bit key n" for n
  proof -
    from that obtain r c where "r < ?rc" "c < ?cc" "n = r * ?cc + c"
      unfolding bits by blast
    with key_index_bound [of r ?rc c ?cc] assms(2) show ?thesis
      by simp
  qed
  then have "within_mask key"
    by (simp add: within_mask_bits)
  with scan show ?thesis
    by (intro exI [of _ key]) (simp add: keypad_read_cycle_def poll_cycle_def)
qed

lemma rows_released_poll_cycle:
  "rows_released (poll_cycle b key s) = rows_released s"
  by (simp add: rows_released_def poll_cycle_lines poll_cycle_counts)

lemma keypad_read_loop_width_ok:
  assumes "rows_released s"
    and "unat (row_count (keypad s)) * unat (col_count (keypad s)) \<le> 24"
    and "dispatch_width_ok s"
  shows "\<exists>s'. keypad_read_loop b inputs s = Inr s' \<and> dispatch_width_ok s'"
  using assms
proof (induction inputs arbitrary: s)
  case Nil
  then show ?case by simp
next
  case (Cons closed inputs)
  from keypad_read_cycle_poll [OF Cons.prems(1,2), of b closed]
  obtain key where c: "keypad_read_cycle b closed s = Inr (poll_cycle b key s)"
    and k: "within_mask key"
    by blast
  have "\<exists>s'. keypad_read_loop b inputs (poll_cycle b key s) = Inr s' \<and> dispatch_width_ok s'"
    using Cons.prems k
    by (intro Cons.IH) (simp_all add: rows_released_poll_cycle poll_cycle_counts poll_cycle_width_ok)
  with c show ?case by simp
qed

text \<open>
  C6. The poll task is started by \<^verbatim>\<open>keypad_init\<close> on a board whose counts give at most
  24 keys, and runs for any number of cycles on any contact states. Then no scan hits an
  undefined shift, and every mask the task has dispatched has all bits above position 23
  clear: the argument of every call, where each \<^verbatim>\<open>xQueueSend\<close> carries the same value as
  the \<^verbatim>\<open>xEventGroupSetBits\<close> before it, every message in the queue, the event group, and
  the accumulator itself.
\<close>

theorem dispatched_masks_fit_24_bits:
  assumes "unat (row_count (keypad (keypad_init b (boot b))))
           * unat (col_count (keypad (keypad_init b (boot b)))) \<le> 24"
  shows "\<exists>s'. keypad_read b inputs (keypad_init b (boot b)) = Inr s'
     \<and> list_all (\<lambda>c. drop_bit 24 (call_mask c) = 0) (calls s')
     \<and> paired (calls s')
     \<and> list_all (\<lambda>v. drop_bit 24 v = 0) (keypad_queue s')
     \<and> drop_bit 24 (keypad_event_group s') = 0
     \<and> drop_bit 24 (keys_down (keypad s')) = 0"
proof -
  have s0: "keypad_read_setup (keypad_init b (boot b)) = power_on b"
    by (simp add: power_on_def)
  have "unat (row_count (keypad (power_on b))) * unat (col_count (keypad (power_on b))) \<le> 24"
    using assms by (simp add: power_on_eq keypad_init_boot)
  moreover have "dispatch_width_ok (power_on b)"
    by (simp add: dispatch_width_ok_def power_on_eq)
  ultimately obtain s' where "keypad_read_loop b inputs (power_on b) = Inr s'"
    and "dispatch_width_ok s'"
    using keypad_read_loop_width_ok [OF rows_released_power_on, where b = b and inputs = inputs]
    by blast
  then show ?thesis
    by (simp add: keypad_read_def s0 dispatch_width_ok_def within_mask_fun)
qed

theorem dispatched_masks_fit_24_bits_witness:
  "unat (row_count (keypad (keypad_init gd32_board (boot gd32_board))))
     * unat (col_count (keypad (keypad_init gd32_board (boot gd32_board)))) \<le> 24
   \<and> (\<exists>s'. keypad_read gd32_board (replicate 6 (\<lambda>r c. r = 0 \<and> c = 1) @ [\<lambda>r c. False])
              (keypad_init gd32_board (boot gd32_board)) = Inr s'
          \<and> calls s' = [SetBits 2, QueueSend 2]
          \<and> list_all (\<lambda>c. drop_bit 24 (call_mask c) = 0) (calls s')
          \<and> paired (calls s')
          \<and> list_all (\<lambda>v. drop_bit 24 v = 0) (keypad_queue s')
          \<and> drop_bit 24 (keypad_event_group s') = 0
          \<and> drop_bit 24 (keys_down (keypad s')) = 0)"
proof -
  let ?inputs = "replicate 6 (\<lambda>r c. r = 0 \<and> c = 1) @ [\<lambda>r c. False]"
  let ?s0 = "keypad_init gd32_board (boot gd32_board)"
  have small: "unat (row_count (keypad ?s0)) * unat (col_count (keypad ?s0)) \<le> 24"
    by (simp add: keypad_init_boot gd32_board_def)
  have run: "(case keypad_read gd32_board ?inputs ?s0 of Inl e \<Rightarrow> [] | Inr s' \<Rightarrow> calls s')
               = [SetBits 2, QueueSend 2]"
    by code_simp
  from dispatched_masks_fit_24_bits [OF small, of ?inputs] run small show ?thesis
    by auto
qed

section \<open>Initialisation and the size of the matrix\<close>

text \<open>
  C3, as the code has it. \<^verbatim>\<open>keypad_init\<close> checks nothing: for every board and from every
  state it stores the table lengths, truncated to 8 bits, as the counts, clears both key
  masks and creates the poll task.
\<close>

theorem init_starts_task_unconditionally:
  "task_created (keypad_init b s)
   \<and> row_count (keypad (keypad_init b s)) = of_nat (n_rows b)
   \<and> col_count (keypad (keypad_init b s)) = of_nat (n_cols b)
   \<and> keys_pressed (keypad (keypad_init b s)) = 0
   \<and> keys_down (keypad (keypad_init b s)) = 0"
  by (simp add: keypad_init_def Let_def xTaskCreate_def keypad_gpio_init_def
      gpio_init_rows_keypad)

text \<open>
  C3, as stated, fails on a board of five rows and five columns: the counts give 25 keys,
  more than the 24 bits of the event mask, and the poll task is created all the same.
\<close>

theorem init_rejects_wide_matrix_counterexample:
  "24 < unat (row_count (keypad (keypad_init \<lparr>n_rows = 5, n_cols = 5, tick_period_ms = 1\<rparr>
                                   (boot \<lparr>n_rows = 5, n_cols = 5, tick_period_ms = 1\<rparr>))))
        * unat (col_count (keypad (keypad_init \<lparr>n_rows = 5, n_cols = 5, tick_period_ms = 1\<rparr>
                                   (boot \<lparr>n_rows = 5, n_cols = 5, tick_period_ms = 1\<rparr>))))
   \<and> task_created (keypad_init \<lparr>n_rows = 5, n_cols = 5, tick_period_ms = 1\<rparr>
                                   (boot \<lparr>n_rows = 5, n_cols = 5, tick_period_ms = 1\<rparr>))"
  by (simp add: keypad_init_boot)

text \<open>
  What the poll task then does on that board: the key of row 4 and column 4 has bit 24.
  Held for six cycles and released, it sets no bit in the event group, and the queue
  receives a value with bit 24 set.
\<close>

lemma wide_matrix_masks_differ:
  "(case keypad_read \<lparr>n_rows = 5, n_cols = 5, tick_period_ms = 1\<rparr>
           (replicate 6 (\<lambda>r c. r = 4 \<and> c = 4) @ [\<lambda>r c. False])
           (keypad_init \<lparr>n_rows = 5, n_cols = 5, tick_period_ms = 1\<rparr>
              (boot \<lparr>n_rows = 5, n_cols = 5, tick_period_ms = 1\<rparr>)) of
      Inl e \<Rightarrow> [] | Inr s' \<Rightarrow> calls s')
     = [SetBits 0, QueueSend (push_bit 24 1)]"
  by code_simp

end
